theory Spec2Isabelle
  imports Main "HOL-Library.Word"
begin

section \<open>The polling loop of \<open>touch.c\<close>\<close>

text \<open>
  The firmware's \<open>main\<close> initialises six 8-byte report buffers and a handful of flags and
  then runs one polling cycle after the other, for ever. A cycle reads the pins, updates
  the flags, patches byte 0 of the six buffers and, when the cycle is dirty, writes the
  three LED slots and hands three buffers to the HID layer.

  The model keeps the local variables of \<open>main\<close> in a record, takes the levels returned by
  the \<open>PIN_read\<close> calls of one cycle as that cycle's input, and returns the new variables
  together with the calls made to the outside (pins, delay, NeoPixel and HID functions),
  in program order.
\<close>

subsection \<open>Data\<close>

type_synonym byte = "8 word"

text \<open>\<open>int\<close> and \<open>unsigned int\<close> are 16 bits wide on this target.\<close>

type_synonym cint = "16 word"

datatype pin = PIN_KEY1 | PIN_KEY2 | PIN_KEY3 | PIN_ENC_SW | PIN_ENC_A | PIN_ENC_B | PIN_LED

text \<open>The six arrays, as the pointers given to \<open>HID_sendReport\<close>.\<close>

datatype report_buf =
    TouchDownReport1 | TouchUpReport1
  | TouchDownReport2 | TouchUpReport2
  | TouchDownReport3 | TouchUpReport3

text \<open>
  Calls to the collaborators. \<open>PIN_read\<close> carries the level it returned,
  \<open>HID_sendReport\<close> the array, its contents at the time of the call and the size passed.
\<close>

datatype event =
    PIN_toggle pin
  | DLY_ms nat
  | PIN_read pin bool
  | NEO_writeColor byte byte byte byte
  | NEO_clearPixel byte
  | HID_sendReport report_buf "byte list" nat
  | NEO_update

text \<open>The variables of \<open>main\<close> that live across the loop.\<close>

record state =
  touchDownReport1 :: "byte list"
  touchUpReport1 :: "byte list"
  touchDownReport2 :: "byte list"
  touchUpReport2 :: "byte list"
  touchDownReport3 :: "byte list"
  touchUpReport3 :: "byte list"
  touchCount :: cint
  lampLight :: cint
  keysChanged :: cint
  key1Pressed :: cint
  key2Pressed :: cint
  key3Pressed :: cint
  knobDirection :: cint
  keyDirty :: cint

text \<open>
  The levels read in one cycle (\<open>True\<close> is high; keys and encoder lines are active low).
  \<open>enc_a_poll i\<close> is the level returned by the \<open>i\<close>-th read of the busy-wait on phase A.
\<close>

record pins =
  key1 :: bool
  key2 :: bool
  key3 :: bool
  enc_sw :: bool
  enc_a :: bool
  enc_b :: bool
  enc_a_poll :: "nat \<Rightarrow> bool"

subsection \<open>Startup\<close>

definition init_state :: state where
  "init_state =
     \<lparr> touchDownReport1 = [0x01, 0x01, 0x03, 0x7F, 0xfa, 0x03, 0xf4, 0x01],
       touchUpReport1 = [0x00, 0x01, 0x00, 0x00, 0x00, 0x00, 0x00, 0x00],
       touchDownReport2 = [0x01, 0x02, 0x03, 0x7F, 0x88, 0x13, 0x88, 0x13],
       touchUpReport2 = [0x00, 0x02, 0x00, 0x00, 0x00, 0x00, 0x00, 0x00],
       touchDownReport3 = [0x01, 0x03, 0x03, 0x7F, 0xf3, 0x20, 0x39, 0x24],
       touchUpReport3 = [0x00, 0x03, 0x00, 0x00, 0x00, 0x00, 0x00, 0x00],
       touchCount = 0,
       lampLight = 0,
       keysChanged = 0,
       key1Pressed = 0,
       key2Pressed = 0,
       key3Pressed = 0,
       knobDirection = 0,
       keyDirty = 0 \<rparr>"

subsection \<open>One cycle\<close>

text \<open>Lines 159-170.\<close>

definition check_key1 :: "pins \<Rightarrow> state \<Rightarrow> state \<times> event list" where
  "check_key1 p s =
     ((if \<not> key1 p then
         (if key1Pressed s = 0
          then s\<lparr>key1Pressed := 1, keyDirty := 1, touchCount := touchCount s + 1\<rparr>
          else s)
       else
         (if key1Pressed s \<noteq> 0
          then s\<lparr>key1Pressed := 0, keyDirty := 1\<rparr>
          else s)),
      [PIN_read PIN_KEY1 (key1 p)])"

text \<open>Lines 172-183.\<close>

definition check_key2 :: "pins \<Rightarrow> state \<Rightarrow> state \<times> event list" where
  "check_key2 p s =
     ((if \<not> key2 p then
         (if key2Pressed s = 0
          then s\<lparr>key2Pressed := 1, keyDirty := 1, touchCount := touchCount s + 1\<rparr>
          else s)
       else
         (if key2Pressed s \<noteq> 0
          then s\<lparr>key2Pressed := 0, keyDirty := 1\<rparr>
          else s)),
      [PIN_read PIN_KEY2 (key2 p)])"

text \<open>
  Lines 185-197. The \<open>||\<close> of the condition reads \<open>PIN_ENC_SW\<close> only when \<open>PIN_KEY3\<close>
  was read high.
\<close>

definition check_key3 :: "pins \<Rightarrow> state \<Rightarrow> state \<times> event list" where
  "check_key3 p s =
     ((if \<not> key3 p \<or> \<not> enc_sw p then
         (if key3Pressed s = 0
          then s\<lparr>key3Pressed := 1, keyDirty := 1, touchCount := touchCount s + 1\<rparr>
          else s)
       else
         (if key3Pressed s \<noteq> 0
          then s\<lparr>key3Pressed := 0, keyDirty := 1\<rparr>
          else s)),
      (if \<not> key3 p then [PIN_read PIN_KEY3 (key3 p)]
       else [PIN_read PIN_KEY3 (key3 p), PIN_read PIN_ENC_SW (enc_sw p)]))"

text \<open>
  Line 208, \<open>while(!PIN_read(PIN_ENC_A));\<close>: read phase A until it is high. The result is
  the number of reads made; the loop does not return while every read is low.
\<close>

partial_function (option) wait_detent :: "(nat \<Rightarrow> bool) \<Rightarrow> nat \<Rightarrow> nat option" where
  "wait_detent rd i = (if \<not> rd i then wait_detent rd (Suc i) else Some (Suc i))"

declare wait_detent.simps [code]

text \<open>The reads of the busy-wait, with the levels they returned.\<close>

definition poll_events :: "(nat \<Rightarrow> bool) \<Rightarrow> nat \<Rightarrow> event list" where
  "poll_events rd n = map (\<lambda>i. PIN_read PIN_ENC_A (rd i)) [0..<n]"

text \<open>Lines 200-210.\<close>

definition check_encoder :: "pins \<Rightarrow> state \<Rightarrow> (state \<times> event list) option" where
  "check_encoder p s =
     (if \<not> enc_a p then
        (let s1 = (if enc_b p then s\<lparr>lampLight := 1\<rparr> else s\<lparr>lampLight := 0\<rparr>)
         in case wait_detent (enc_a_poll p) 0 of
              None \<Rightarrow> None
            | Some n \<Rightarrow>
                Some (s1\<lparr>keyDirty := 1\<rparr>,
                      [PIN_read PIN_ENC_A (enc_a p), PIN_read PIN_ENC_B (enc_b p), DLY_ms 10]
                      @ poll_events (enc_a_poll p) n))
      else Some (s, [PIN_read PIN_ENC_A (enc_a p)]))"

text \<open>Lines 213-218. The assignment to an \<open>unsigned char\<close> keeps the low byte.\<close>

definition patch_reports :: "state \<Rightarrow> state" where
  "patch_reports s =
     s\<lparr>touchDownReport1 := (touchDownReport1 s)[0 := ucast (touchCount s)],
       touchUpReport1 := (touchUpReport1 s)[0 := ucast (touchCount s)],
       touchDownReport2 := (touchDownReport2 s)[0 := ucast (touchCount s)],
       touchUpReport2 := (touchUpReport2 s)[0 := ucast (touchCount s)],
       touchDownReport3 := (touchDownReport3 s)[0 := ucast (touchCount s)],
       touchUpReport3 := (touchUpReport3 s)[0 := ucast (touchCount s)]\<rparr>"

text \<open>Lines 221-231, 232-242 and 243-253: the LED slot and the report of each key.\<close>

definition dispatch_key1 :: "state \<Rightarrow> event list" where
  "dispatch_key1 s =
     (if key1Pressed s \<noteq> 0 then
        [NEO_writeColor 0 25 19 0, HID_sendReport TouchDownReport1 (touchDownReport1 s) 8]
      else
        (if lampLight s \<noteq> 0 then [NEO_writeColor 0 15 5 0] else [NEO_clearPixel 0])
        @ [HID_sendReport TouchUpReport1 (touchUpReport1 s) 8])"

definition dispatch_key2 :: "state \<Rightarrow> event list" where
  "dispatch_key2 s =
     (if key2Pressed s \<noteq> 0 then
        [NEO_writeColor 1 25 19 0, HID_sendReport TouchDownReport2 (touchDownReport2 s) 8]
      else
        (if lampLight s \<noteq> 0 then [NEO_writeColor 1 15 5 0] else [NEO_clearPixel 1])
        @ [HID_sendReport TouchUpReport2 (touchUpReport2 s) 8])"

definition dispatch_key3 :: "state \<Rightarrow> event list" where
  "dispatch_key3 s =
     (if key3Pressed s \<noteq> 0 then
        [NEO_writeColor 2 25 19 0, HID_sendReport TouchDownReport3 (touchDownReport3 s) 8]
      else
        (if lampLight s \<noteq> 0 then [NEO_writeColor 2 15 5 0] else [NEO_clearPixel 2])
        @ [HID_sendReport TouchUpReport3 (touchUpReport3 s) 8])"

text \<open>Lines 220-254. Nothing in the block assigns a variable.\<close>

definition dispatch :: "state \<Rightarrow> event list" where
  "dispatch s =
     (if keyDirty s \<noteq> 0 then dispatch_key1 s @ dispatch_key2 s @ dispatch_key3 s else [])"

text \<open>Lines 150-197: the start of the loop body and the three keys.\<close>

definition check_keys :: "pins \<Rightarrow> state \<Rightarrow> state \<times> event list" where
  "check_keys p s0 =
     (let s1 = s0\<lparr>keyDirty := 0, touchCount := 0\<rparr>;
          e1 = [PIN_toggle PIN_LED, DLY_ms 10];
          (s2, e2) = check_key1 p s1;
          (s3, e3) = check_key2 p s2;
          (s4, e4) = check_key3 p s3
      in (s4, e1 @ e2 @ e3 @ e4))"

text \<open>
  The sampling part of the loop body (lines 150-210), and the whole body (lines 150-255).
  \<open>None\<close>: the busy-wait on phase A never returns.
\<close>

definition sample :: "pins \<Rightarrow> state \<Rightarrow> (state \<times> event list) option" where
  "sample p s0 =
     (let (s4, e4) = check_keys p s0
      in case check_encoder p s4 of
           None \<Rightarrow> None
         | Some (s5, e5) \<Rightarrow> Some (s5, e4 @ e5))"

definition loop_body :: "pins \<Rightarrow> state \<Rightarrow> (state \<times> event list) option" where
  "loop_body p s0 =
     (case sample p s0 of
        None \<Rightarrow> None
      | Some (s5, e5) \<Rightarrow>
          (let s6 = patch_reports s5
           in Some (s6, e5 @ dispatch s6 @ [NEO_update])))"

text \<open>
  \<open>while (1)\<close> on the inputs of finitely many cycles: for each cycle, the variables at
  its end and the calls it made.
\<close>

fun run :: "pins list \<Rightarrow> state \<Rightarrow> (state \<times> event list) list option" where
  "run [] s = Some []"
| "run (p # ps) s =
     (case loop_body p s of
        None \<Rightarrow> None
      | Some (s', es) \<Rightarrow>
          (case run ps s' of
             None \<Rightarrow> None
           | Some r \<Rightarrow> Some ((s', es) # r)))"

subsection \<open>Observations\<close>

datatype key = Key1 | Key2 | Key3

datatype variant = Down | Up

text \<open>The tracked state of a key, as the conditions of the code test it.\<close>

fun pressed :: "key \<Rightarrow> state \<Rightarrow> bool" where
  "pressed Key1 s = (key1Pressed s \<noteq> 0)"
| "pressed Key2 s = (key2Pressed s \<noteq> 0)"
| "pressed Key3 s = (key3Pressed s \<noteq> 0)"

text \<open>The sampled state of a key: the condition of its outer \<open>if\<close>.\<close>

fun sampled :: "key \<Rightarrow> pins \<Rightarrow> bool" where
  "sampled Key1 p = (\<not> key1 p)"
| "sampled Key2 p = (\<not> key2 p)"
| "sampled Key3 p = (\<not> key3 p \<or> \<not> enc_sw p)"

fun buffer :: "state \<Rightarrow> report_buf \<Rightarrow> byte list" where
  "buffer s TouchDownReport1 = touchDownReport1 s"
| "buffer s TouchUpReport1 = touchUpReport1 s"
| "buffer s TouchDownReport2 = touchDownReport2 s"
| "buffer s TouchUpReport2 = touchUpReport2 s"
| "buffer s TouchDownReport3 = touchDownReport3 s"
| "buffer s TouchUpReport3 = touchUpReport3 s"

fun report_of :: "key \<Rightarrow> variant \<Rightarrow> report_buf" where
  "report_of Key1 Down = TouchDownReport1"
| "report_of Key1 Up = TouchUpReport1"
| "report_of Key2 Down = TouchDownReport2"
| "report_of Key2 Up = TouchUpReport2"
| "report_of Key3 Down = TouchDownReport3"
| "report_of Key3 Up = TouchUpReport3"

fun slot :: "key \<Rightarrow> byte" where
  "slot Key1 = 0"
| "slot Key2 = 1"
| "slot Key3 = 2"

text \<open>Every array has its eight bytes.\<close>

definition wf_state :: "state \<Rightarrow> bool" where
  "wf_state s =
     (length (touchDownReport1 s) = 8 \<and> length (touchUpReport1 s) = 8 \<and>
      length (touchDownReport2 s) = 8 \<and> length (touchUpReport2 s) = 8 \<and>
      length (touchDownReport3 s) = 8 \<and> length (touchUpReport3 s) = 8)"

text \<open>The reports handed to the HID layer, in order: the array and the bytes sent.\<close>

fun hid_reports :: "event list \<Rightarrow> (report_buf \<times> byte list) list" where
  "hid_reports [] = []"
| "hid_reports (HID_sendReport b bs n # es) = (b, take n bs) # hid_reports es"
| "hid_reports (e # es) = hid_reports es"

text \<open>The per-slot LED writes, in order.\<close>

fun led_writes :: "event list \<Rightarrow> event list" where
  "led_writes [] = []"
| "led_writes (NEO_writeColor i r g b # es) = NEO_writeColor i r g b # led_writes es"
| "led_writes (NEO_clearPixel i # es) = NEO_clearPixel i # led_writes es"
| "led_writes (e # es) = led_writes es"

text \<open>The reads of one pin, in order.\<close>

fun reads_of :: "pin \<Rightarrow> event list \<Rightarrow> bool list" where
  "reads_of x [] = []"
| "reads_of x (PIN_read y v # es) = (if x = y then v # reads_of x es else reads_of x es)"
| "reads_of x (e # es) = reads_of x es"

text \<open>The variants dispatched for one key.\<close>

fun reports_for :: "key \<Rightarrow> event list \<Rightarrow> variant list" where
  "reports_for k [] = []"
| "reports_for k (HID_sendReport b bs n # es) =
     (if b = report_of k Down then Down # reports_for k es
      else if b = report_of k Up then Up # reports_for k es
      else reports_for k es)"
| "reports_for k (e # es) = reports_for k es"

text \<open>Inputs used in the examples: the keys named are held down, the encoder rests.\<close>

definition idle :: pins where
  "idle = \<lparr>key1 = True, key2 = True, key3 = True, enc_sw = True,
            enc_a = True, enc_b = True, enc_a_poll = (\<lambda>i. True)\<rparr>"

definition hold1 :: pins where
  "hold1 = idle\<lparr>key1 := False\<rparr>"

definition hold12 :: pins where
  "hold12 = idle\<lparr>key1 := False, key2 := False\<rparr>"

definition hold123 :: pins where
  "hold123 = idle\<lparr>key1 := False, key2 := False, key3 := False\<rparr>"

text \<open>The encoder turned: phase A low, and low again at the first two reads of the wait.\<close>

definition turn :: "bool \<Rightarrow> pins" where
  "turn b = idle\<lparr>enc_a := False, enc_b := b, enc_a_poll := (\<lambda>i. 2 \<le> i)\<rparr>"

text \<open>The calls of a cycle other than the pin reads.\<close>

fun outputs :: "event list \<Rightarrow> event list" where
  "outputs [] = []"
| "outputs (PIN_read x v # es) = outputs es"
| "outputs (e # es) = e # outputs es"

definition variant_of :: "bool \<Rightarrow> variant" where
  "variant_of b = (if b then Down else Up)"

text \<open>
  The colour mapping as section 4.4 of the specification words it: pressed gives the
  active colour, not pressed with the lamp on the ambient colour, otherwise the slot is
  cleared.
\<close>

definition spec_feedback_color :: "key \<Rightarrow> bool \<Rightarrow> bool \<Rightarrow> event" where
  "spec_feedback_color k is_pressed lamp =
     (if is_pressed then NEO_writeColor (slot k) 25 19 0
      else if lamp then NEO_writeColor (slot k) 15 5 0
      else NEO_clearPixel (slot k))"

text \<open>
  Every sampled level equals the tracked state, and phase A of the encoder rests.
\<close>

definition unchanged_input :: "pins \<Rightarrow> state \<Rightarrow> bool" where
  "unchanged_input p s =
     (sampled Key1 p = pressed Key1 s \<and> sampled Key2 p = pressed Key2 s \<and>
      sampled Key3 p = pressed Key3 s \<and> enc_a p)"

text \<open>
  What one cycle dispatches for a key, and whether the key's tracked state changed in it.
\<close>

definition cycle_reports_for :: "key \<Rightarrow> pins \<Rightarrow> state \<Rightarrow> variant list option" where
  "cycle_reports_for k p s =
     (case loop_body p s of None \<Rightarrow> None | Some (s', es) \<Rightarrow> Some (reports_for k es))"

definition key_changed :: "key \<Rightarrow> pins \<Rightarrow> state \<Rightarrow> bool option" where
  "key_changed k p s =
     (case loop_body p s of None \<Rightarrow> None | Some (s', es) \<Rightarrow> Some (pressed k s' \<noteq> pressed k s))"

text \<open>All the variants dispatched for a key over a sequence of cycles.\<close>

definition run_reports_for :: "key \<Rightarrow> pins list \<Rightarrow> state \<Rightarrow> variant list option" where
  "run_reports_for k ps s =
     (case run ps s of None \<Rightarrow> None | Some r \<Rightarrow> Some (concat (map (reports_for k \<circ> snd) r)))"

subsection \<open>The effect of each part of the loop body\<close>

lemma check_key1_fst:
  "key1Pressed (fst (check_key1 p s)) =
     (if \<not> key1 p then (if key1Pressed s = 0 then 1 else key1Pressed s) else 0)"
  "keyDirty (fst (check_key1 p s)) =
     (if (key1Pressed s = 0) = (\<not> key1 p) then 1 else keyDirty s)"
  "touchCount (fst (check_key1 p s)) =
     (if \<not> key1 p \<and> key1Pressed s = 0 then touchCount s + 1 else touchCount s)"
  "key2Pressed (fst (check_key1 p s)) = key2Pressed s"
  "key3Pressed (fst (check_key1 p s)) = key3Pressed s"
  "lampLight (fst (check_key1 p s)) = lampLight s"
  "buffer (fst (check_key1 p s)) b = buffer s b"
  "snd (check_key1 p s) = [PIN_read PIN_KEY1 (key1 p)]"
  by (cases b; simp add: check_key1_def)+

lemma check_key2_fst:
  "key2Pressed (fst (check_key2 p s)) =
     (if \<not> key2 p then (if key2Pressed s = 0 then 1 else key2Pressed s) else 0)"
  "keyDirty (fst (check_key2 p s)) =
     (if (key2Pressed s = 0) = (\<not> key2 p) then 1 else keyDirty s)"
  "touchCount (fst (check_key2 p s)) =
     (if \<not> key2 p \<and> key2Pressed s = 0 then touchCount s + 1 else touchCount s)"
  "key1Pressed (fst (check_key2 p s)) = key1Pressed s"
  "key3Pressed (fst (check_key2 p s)) = key3Pressed s"
  "lampLight (fst (check_key2 p s)) = lampLight s"
  "buffer (fst (check_key2 p s)) b = buffer s b"
  "snd (check_key2 p s) = [PIN_read PIN_KEY2 (key2 p)]"
  by (cases b; simp add: check_key2_def)+

lemma check_key3_fst:
  "key3Pressed (fst (check_key3 p s)) =
     (if \<not> key3 p \<or> \<not> enc_sw p then (if key3Pressed s = 0 then 1 else key3Pressed s) else 0)"
  "keyDirty (fst (check_key3 p s)) =
     (if (key3Pressed s = 0) = (\<not> key3 p \<or> \<not> enc_sw p) then 1 else keyDirty s)"
  "touchCount (fst (check_key3 p s)) =
     (if (\<not> key3 p \<or> \<not> enc_sw p) \<and> key3Pressed s = 0 then touchCount s + 1 else touchCount s)"
  "key1Pressed (fst (check_key3 p s)) = key1Pressed s"
  "key2Pressed (fst (check_key3 p s)) = key2Pressed s"
  "lampLight (fst (check_key3 p s)) = lampLight s"
  "buffer (fst (check_key3 p s)) b = buffer s b"
  "snd (check_key3 p s) = (if \<not> key3 p then [PIN_read PIN_KEY3 (key3 p)]
       else [PIN_read PIN_KEY3 (key3 p), PIN_read PIN_ENC_SW (enc_sw p)])"
  by (cases b; simp add: check_key3_def)+

lemmas key_fst = check_key1_fst check_key2_fst check_key3_fst

lemma buffer_reset [simp]: "buffer (s\<lparr>keyDirty := d, touchCount := c\<rparr>) b = buffer s b"
  by (cases b) simp_all

lemma check_keys_pressed: "pressed k (fst (check_keys p s)) = sampled k p"
  by (cases k) (simp_all add: check_keys_def split_beta key_fst)

lemma check_keys_buffer: "buffer (fst (check_keys p s)) b = buffer s b"
  by (simp add: check_keys_def split_beta key_fst)

lemma check_keys_lamp: "lampLight (fst (check_keys p s)) = lampLight s"
  by (simp add: check_keys_def split_beta key_fst)

lemma check_keys_dirty:
  "keyDirty (fst (check_keys p s)) =
     (if pressed Key1 s \<noteq> sampled Key1 p \<or> pressed Key2 s \<noteq> sampled Key2 p \<or>
         pressed Key3 s \<noteq> sampled Key3 p then 1 else 0)"
  by (simp add: check_keys_def split_beta key_fst)

lemma check_keys_count:
  "touchCount (fst (check_keys p s)) =
     (if sampled Key1 p \<and> \<not> pressed Key1 s then 1 else 0)
     + (if sampled Key2 p \<and> \<not> pressed Key2 s then 1 else 0)
     + (if sampled Key3 p \<and> \<not> pressed Key3 s then 1 else 0)"
  by (simp add: check_keys_def split_beta key_fst)

lemma check_keys_events:
  "snd (check_keys p s) =
     [PIN_toggle PIN_LED, DLY_ms 10, PIN_read PIN_KEY1 (key1 p), PIN_read PIN_KEY2 (key2 p)]
     @ (if \<not> key3 p then [PIN_read PIN_KEY3 (key3 p)]
        else [PIN_read PIN_KEY3 (key3 p), PIN_read PIN_ENC_SW (enc_sw p)])"
  by (simp add: check_keys_def split_beta key_fst)

subsection \<open>The busy-wait and the encoder\<close>

lemma wait_detent_found:
  "rd (i + d) \<Longrightarrow> (\<And>j. j < d \<Longrightarrow> \<not> rd (i + j)) \<Longrightarrow> wait_detent rd i = Some (Suc (i + d))"
proof (induction d arbitrary: i)
  case 0
  then show ?case by (subst wait_detent.simps) simp
next
  case (Suc d)
  have "\<not> rd i" using Suc.prems(2) [of 0] by simp
  moreover have "wait_detent rd (Suc i) = Some (Suc (Suc i + d))"
  proof (rule Suc.IH)
    show "rd (Suc i + d)" using Suc.prems(1) by simp
    fix j assume "j < d"
    then show "\<not> rd (Suc i + j)" using Suc.prems(2) [of "Suc j"] by simp
  qed
  ultimately show ?case by (subst wait_detent.simps) simp
qed

lemma wait_detent_Some:
  assumes "wait_detent rd i = Some n"
  shows "i < n \<and> rd (n - 1) \<and> (\<forall>j. i \<le> j \<and> j < n - 1 \<longrightarrow> \<not> rd j)"
proof (rule wait_detent.raw_induct
    [where P = "\<lambda>rd i n. i < n \<and> rd (n - 1) \<and> (\<forall>j. i \<le> j \<and> j < n - 1 \<longrightarrow> \<not> rd j)",
     OF _ assms])
  fix f :: "(nat \<Rightarrow> bool) \<Rightarrow> nat \<Rightarrow> nat option" and rd i n
  assume IH: "\<And>rd i n. f rd i = Some n \<Longrightarrow>
      i < n \<and> rd (n - 1) \<and> (\<forall>j. i \<le> j \<and> j < n - 1 \<longrightarrow> \<not> rd j)"
    and step: "(if \<not> rd i then f rd (Suc i) else Some (Suc i)) = Some n"
  show "i < n \<and> rd (n - 1) \<and> (\<forall>j. i \<le> j \<and> j < n - 1 \<longrightarrow> \<not> rd j)"
  proof (cases "rd i")
    case True
    with step show ?thesis by auto
  next
    case False
    with step have "f rd (Suc i) = Some n" by simp
    from IH [OF this] have "Suc i < n" "rd (n - 1)" "\<forall>j. Suc i \<le> j \<and> j < n - 1 \<longrightarrow> \<not> rd j"
      by auto
    with False show ?thesis
      by (metis Suc_leI Suc_lessD le_neq_implies_less)
  qed
qed

lemma wait_detent_returns: "(\<exists>n. wait_detent rd i = Some n) \<longleftrightarrow> (\<exists>j\<ge>i. rd j)"
proof
  assume "\<exists>n. wait_detent rd i = Some n"
  then obtain n where "wait_detent rd i = Some n" ..
  from wait_detent_Some [OF this] show "\<exists>j\<ge>i. rd j"
    by (intro exI [of _ "n - 1"]) auto
next
  assume "\<exists>j\<ge>i. rd j"
  then obtain j where j: "i \<le> j" "rd j" by blast
  define m where "m = (LEAST l. i \<le> l \<and> rd l)"
  have m: "i \<le> m \<and> rd m" unfolding m_def by (rule LeastI [of _ j]) (use j in simp)
  have least: "\<And>l. i \<le> l \<Longrightarrow> l < m \<Longrightarrow> \<not> rd l"
    unfolding m_def using not_less_Least by blast
  have "wait_detent rd i = Some (Suc (i + (m - i)))"
    by (rule wait_detent_found) (use m least in auto)
  then show "\<exists>n. wait_detent rd i = Some n" ..
qed

lemma wait_detent_None: "wait_detent rd 0 = None \<longleftrightarrow> (\<forall>i. \<not> rd i)"
  using wait_detent_returns [of rd 0] by auto

lemma poll_events_Suc:
  assumes "rd n" "\<forall>j<n. \<not> rd j"
  shows "poll_events rd (Suc n) =
    replicate n (PIN_read PIN_ENC_A False) @ [PIN_read PIN_ENC_A True]"
proof -
  have "map (\<lambda>i. PIN_read PIN_ENC_A (rd i)) [0..<n] = map (\<lambda>i. PIN_read PIN_ENC_A False) [0..<n]"
    by (rule map_cong) (use assms in auto)
  then show ?thesis
    using assms by (simp add: poll_events_def map_replicate_const)
qed

lemma check_encoder_rest:
  "enc_a p \<Longrightarrow> check_encoder p s = Some (s, [PIN_read PIN_ENC_A True])"
  by (simp add: check_encoder_def)

lemma check_encoder_blocked:
  assumes "\<not> enc_a p"
  shows "check_encoder p s = None \<longleftrightarrow> (\<forall>i. \<not> enc_a_poll p i)"
proof (cases "wait_detent (enc_a_poll p) 0")
  case None
  with assms wait_detent_None [of "enc_a_poll p"] show ?thesis
    by (simp add: check_encoder_def)
next
  case (Some n)
  with assms wait_detent_None [of "enc_a_poll p"] show ?thesis
    by (simp add: check_encoder_def)
qed

lemma check_encoder_turn:
  assumes "\<not> enc_a p" "check_encoder p s = Some (s', es)"
  shows "\<exists>n. enc_a_poll p n \<and> (\<forall>i<n. \<not> enc_a_poll p i) \<and>
     s' = s\<lparr>lampLight := (if enc_b p then 1 else 0), keyDirty := 1\<rparr> \<and>
     es = [PIN_read PIN_ENC_A False, PIN_read PIN_ENC_B (enc_b p), DLY_ms 10]
          @ replicate n (PIN_read PIN_ENC_A False) @ [PIN_read PIN_ENC_A True]"
proof -
  from assms obtain m where m: "wait_detent (enc_a_poll p) 0 = Some m"
    and s': "s' = s\<lparr>lampLight := (if enc_b p then 1 else 0), keyDirty := 1\<rparr>"
    and es: "es = [PIN_read PIN_ENC_A False, PIN_read PIN_ENC_B (enc_b p), DLY_ms 10]
                  @ poll_events (enc_a_poll p) m"
    by (auto simp: check_encoder_def split: option.splits if_splits)
  from wait_detent_Some [OF m] obtain n where n: "m = Suc n" "enc_a_poll p n"
    "\<forall>i<n. \<not> enc_a_poll p i"
    by (cases m) auto
  show ?thesis
    using n s' es poll_events_Suc [of "enc_a_poll p" n] by (intro exI [of _ n]) simp
qed

subsection \<open>Observations of a trace\<close>

lemma hid_reports_append: "hid_reports (xs @ ys) = hid_reports xs @ hid_reports ys"
  by (induction xs rule: hid_reports.induct) simp_all

lemma led_writes_append: "led_writes (xs @ ys) = led_writes xs @ led_writes ys"
  by (induction xs rule: led_writes.induct) simp_all

lemma reads_of_append: "reads_of x (xs @ ys) = reads_of x xs @ reads_of x ys"
  by (induction x xs rule: reads_of.induct) simp_all

lemma reports_for_append: "reports_for k (xs @ ys) = reports_for k xs @ reports_for k ys"
  by (induction k xs rule: reports_for.induct) simp_all

lemma outputs_append: "outputs (xs @ ys) = outputs xs @ outputs ys"
  by (induction xs rule: outputs.induct) simp_all

lemmas obs_append = hid_reports_append led_writes_append reads_of_append reports_for_append
  outputs_append

lemma obs_replicate_read:
  "hid_reports (replicate n (PIN_read x v)) = []"
  "led_writes (replicate n (PIN_read x v)) = []"
  "reports_for k (replicate n (PIN_read x v)) = []"
  "outputs (replicate n (PIN_read x v)) = []"
  "x \<noteq> y \<Longrightarrow> reads_of y (replicate n (PIN_read x v)) = []"
  by (induction n) simp_all

lemma pressed_update [simp]:
  "pressed k (s\<lparr>lampLight := l, keyDirty := d\<rparr>) = pressed k s"
  by (cases k) simp_all

lemma buffer_update [simp]:
  "buffer (s\<lparr>lampLight := l, keyDirty := d\<rparr>) b = buffer s b"
  by (cases b) simp_all

subsection \<open>Sampling, patching and dispatch\<close>

lemma sample_rest:
  "enc_a p \<Longrightarrow>
   sample p s = Some (fst (check_keys p s), snd (check_keys p s) @ [PIN_read PIN_ENC_A True])"
  by (simp add: sample_def split_beta check_encoder_rest)

lemma sample_blocked:
  assumes "\<not> enc_a p"
  shows "sample p s = None \<longleftrightarrow> (\<forall>i. \<not> enc_a_poll p i)"
proof -
  have "sample p s = None \<longleftrightarrow> check_encoder p (fst (check_keys p s)) = None"
    by (cases "check_encoder p (fst (check_keys p s))") (auto simp: sample_def split_beta)
  with check_encoder_blocked [OF assms] show ?thesis by simp
qed

lemma sample_turn:
  assumes "\<not> enc_a p" "sample p s = Some (s', es)"
  shows "\<exists>n. enc_a_poll p n \<and> (\<forall>i<n. \<not> enc_a_poll p i) \<and>
     s' = (fst (check_keys p s))\<lparr>lampLight := (if enc_b p then 1 else 0), keyDirty := 1\<rparr> \<and>
     es = snd (check_keys p s)
          @ [PIN_read PIN_ENC_A False, PIN_read PIN_ENC_B (enc_b p), DLY_ms 10]
          @ replicate n (PIN_read PIN_ENC_A False) @ [PIN_read PIN_ENC_A True]"
proof -
  from assms(2) obtain e5 where e5: "check_encoder p (fst (check_keys p s)) = Some (s', e5)"
    and es: "es = snd (check_keys p s) @ e5"
    by (auto simp: sample_def split_beta split: option.splits)
  from check_encoder_turn [OF assms(1) e5] es show ?thesis by auto
qed

lemma sample_pressed: "sample p s = Some (s', es) \<Longrightarrow> pressed k s' = sampled k p"
  by (cases "enc_a p") (auto simp: sample_rest check_keys_pressed dest: sample_turn)

lemma sample_buffer: "sample p s = Some (s', es) \<Longrightarrow> buffer s' b = buffer s b"
  by (cases "enc_a p") (auto simp: sample_rest check_keys_buffer dest: sample_turn)

lemma sample_lamp:
  "sample p s = Some (s', es) \<Longrightarrow>
   lampLight s' = (if enc_a p then lampLight s else if enc_b p then 1 else 0)"
  by (cases "enc_a p") (auto simp: sample_rest check_keys_lamp dest: sample_turn)

lemma sample_dirty:
  assumes "sample p s = Some (s', es)"
  shows "keyDirty s' =
     (if pressed Key1 s \<noteq> sampled Key1 p \<or> pressed Key2 s \<noteq> sampled Key2 p \<or>
         pressed Key3 s \<noteq> sampled Key3 p \<or> \<not> enc_a p then 1 else 0)"
proof (cases "enc_a p")
  case True
  with assms have "s' = fst (check_keys p s)" by (simp add: sample_rest)
  with True show ?thesis by (simp only: check_keys_dirty) simp
next
  case False
  from sample_turn [OF False assms] have "keyDirty s' = 1" by auto
  with False show ?thesis by simp
qed

lemma sample_count:
  "sample p s = Some (s', es) \<Longrightarrow>
   touchCount s' =
     (if sampled Key1 p \<and> \<not> pressed Key1 s then 1 else 0)
     + (if sampled Key2 p \<and> \<not> pressed Key2 s then 1 else 0)
     + (if sampled Key3 p \<and> \<not> pressed Key3 s then 1 else 0)"
  by (cases "enc_a p") (auto simp: sample_rest check_keys_count dest!: sample_turn)

lemma sample_silent:
  "sample p s = Some (s', es) \<Longrightarrow>
   hid_reports es = [] \<and> led_writes es = [] \<and> reports_for k es = []"
  by (cases "enc_a p")
    (auto simp: sample_rest check_keys_events obs_append obs_replicate_read dest!: sample_turn)

lemma sample_reads_B:
  "sample p s = Some (s', es) \<Longrightarrow>
   reads_of PIN_ENC_B es = (if enc_a p then [] else [enc_b p])"
  by (cases "enc_a p")
    (auto simp: sample_rest check_keys_events obs_append obs_replicate_read dest!: sample_turn)

lemma patch_reports_fields [simp]:
  "pressed k (patch_reports s) = pressed k s"
  "keyDirty (patch_reports s) = keyDirty s"
  "lampLight (patch_reports s) = lampLight s"
  "touchCount (patch_reports s) = touchCount s"
  "buffer (patch_reports s) b = (buffer s b)[0 := ucast (touchCount s)]"
  by (cases k; cases b; simp add: patch_reports_def)+

lemma loop_body_Some_iff:
  "loop_body p s = Some (s', es) \<longleftrightarrow>
   (\<exists>s5 e5. sample p s = Some (s5, e5) \<and> s' = patch_reports s5 \<and>
      es = e5 @ dispatch s' @ [NEO_update])"
  by (auto simp: loop_body_def Let_def split: option.splits)

lemma loop_body_None_iff: "loop_body p s = None \<longleftrightarrow> sample p s = None"
  by (auto simp: loop_body_def Let_def split: option.splits)

lemma dispatch_hid:
  "hid_reports (dispatch s) =
     (if keyDirty s \<noteq> 0
      then [(report_of Key1 (variant_of (pressed Key1 s)),
               take 8 (buffer s (report_of Key1 (variant_of (pressed Key1 s))))),
            (report_of Key2 (variant_of (pressed Key2 s)),
               take 8 (buffer s (report_of Key2 (variant_of (pressed Key2 s))))),
            (report_of Key3 (variant_of (pressed Key3 s)),
               take 8 (buffer s (report_of Key3 (variant_of (pressed Key3 s)))))]
      else [])"
  by (simp add: dispatch_def dispatch_key1_def dispatch_key2_def dispatch_key3_def variant_of_def)

lemma dispatch_led:
  "led_writes (dispatch s) =
     (if keyDirty s \<noteq> 0
      then [spec_feedback_color Key1 (pressed Key1 s) (lampLight s \<noteq> 0),
            spec_feedback_color Key2 (pressed Key2 s) (lampLight s \<noteq> 0),
            spec_feedback_color Key3 (pressed Key3 s) (lampLight s \<noteq> 0)]
      else [])"
  by (simp add: dispatch_def dispatch_key1_def dispatch_key2_def dispatch_key3_def
      spec_feedback_color_def)

lemma dispatch_outputs: "outputs (dispatch s) = dispatch s"
  by (simp add: dispatch_def dispatch_key1_def dispatch_key2_def dispatch_key3_def)

lemma dispatch_reads: "reads_of x (dispatch s) = []"
  by (simp add: dispatch_def dispatch_key1_def dispatch_key2_def dispatch_key3_def)

subsection \<open>The whole cycle\<close>

lemma loop_bodyE:
  assumes "loop_body p s = Some (s', es)"
  obtains s5 e5 where "sample p s = Some (s5, e5)" and "s' = patch_reports s5"
    and "es = e5 @ dispatch s' @ [NEO_update]"
  using assms by (auto simp: loop_body_Some_iff)

lemma loop_body_pressed:
  assumes "loop_body p s = Some (s', es)"
  shows "pressed k s' = sampled k p"
  using assms by (elim loop_bodyE) (simp add: sample_pressed)

lemma loop_body_dirty:
  assumes "loop_body p s = Some (s', es)"
  shows "keyDirty s' =
     (if pressed Key1 s \<noteq> sampled Key1 p \<or> pressed Key2 s \<noteq> sampled Key2 p \<or>
         pressed Key3 s \<noteq> sampled Key3 p \<or> \<not> enc_a p then 1 else 0)"
proof -
  from assms obtain s5 e5 where s5: "sample p s = Some (s5, e5)" and "s' = patch_reports s5"
    by (elim loop_bodyE)
  then have "keyDirty s' = keyDirty s5" by simp
  with sample_dirty [OF s5] show ?thesis by (simp only:)
qed

lemma loop_body_lamp:
  assumes "loop_body p s = Some (s', es)"
  shows "lampLight s' = (if enc_a p then lampLight s else if enc_b p then 1 else 0)"
proof -
  from assms obtain s5 e5 where s5: "sample p s = Some (s5, e5)" and "s' = patch_reports s5"
    by (elim loop_bodyE)
  then have "lampLight s' = lampLight s5" by simp
  with sample_lamp [OF s5] show ?thesis by (simp only:)
qed

lemma loop_body_count:
  assumes "loop_body p s = Some (s', es)"
  shows "touchCount s' =
     (if sampled Key1 p \<and> \<not> pressed Key1 s then 1 else 0)
     + (if sampled Key2 p \<and> \<not> pressed Key2 s then 1 else 0)
     + (if sampled Key3 p \<and> \<not> pressed Key3 s then 1 else 0)"
proof -
  from assms obtain s5 e5 where s5: "sample p s = Some (s5, e5)" and "s' = patch_reports s5"
    by (elim loop_bodyE)
  then have "touchCount s' = touchCount s5" by simp
  with sample_count [OF s5] show ?thesis by (simp only:)
qed

lemma loop_body_buffer:
  assumes "loop_body p s = Some (s', es)"
  shows "buffer s' b = (buffer s b)[0 := ucast (touchCount s')]"
proof -
  from assms obtain s5 e5 where s5: "sample p s = Some (s5, e5)" and "s' = patch_reports s5"
    by (elim loop_bodyE)
  then show ?thesis by (simp add: sample_buffer [OF s5])
qed

lemma loop_body_hid:
  "loop_body p s = Some (s', es) \<Longrightarrow> hid_reports es = hid_reports (dispatch s')"
  by (auto simp: loop_body_Some_iff obs_append dest: sample_silent)

lemma loop_body_led:
  "loop_body p s = Some (s', es) \<Longrightarrow> led_writes es = led_writes (dispatch s')"
  by (auto simp: loop_body_Some_iff obs_append dest: sample_silent)

lemma wf_state_buffer: "wf_state s \<longleftrightarrow> (\<forall>b. length (buffer s b) = 8)"
proof
  assume "wf_state s"
  then show "\<forall>b. length (buffer s b) = 8"
    by (auto simp: wf_state_def) (case_tac b; simp)
next
  assume a: "\<forall>b. length (buffer s b) = 8"
  show "wf_state s"
    unfolding wf_state_def
    using a [rule_format, of TouchDownReport1] a [rule_format, of TouchUpReport1]
      a [rule_format, of TouchDownReport2] a [rule_format, of TouchUpReport2]
      a [rule_format, of TouchDownReport3] a [rule_format, of TouchUpReport3]
    by simp
qed

section \<open>Properties\<close>

text \<open>Unfolding for the evaluation of a cycle on given inputs.\<close>

lemmas cycle_defs = loop_body_def sample_def check_keys_def check_key1_def check_key2_def
  check_key3_def check_encoder_def patch_reports_def dispatch_def dispatch_key1_def
  dispatch_key2_def dispatch_key3_def poll_events_def

lemmas input_defs = idle_def hold1_def hold12_def hold123_def turn_def

lemma wf_init_state: "wf_state init_state"
  by (simp add: wf_state_def init_state_def)

subsection \<open>The contact count byte\<close>

text \<open>
  C4. In every cycle, once the inputs are sampled and before anything is dispatched, byte 0
  of all six report arrays holds the cycle's \<open>touchCount\<close>, whether or not the array is
  sent in this cycle: the sampling part sends no report, the arrays are patched next, and
  the dispatch reads the patched arrays.
\<close>

theorem contactCount_patched_before_dispatch:
  assumes "loop_body p s = Some (s', es)" and "wf_state s"
  shows "(\<forall>b. buffer s' b ! 0 = ucast (touchCount s')) \<and>
    (\<exists>s5 e5. sample p s = Some (s5, e5) \<and> hid_reports e5 = [] \<and>
       touchCount s' = touchCount s5 \<and> s' = patch_reports s5 \<and>
       es = e5 @ dispatch (patch_reports s5) @ [NEO_update])"
proof -
  from assms(1) obtain s5 e5 where s5: "sample p s = Some (s5, e5)"
    and s': "s' = patch_reports s5" and es: "es = e5 @ dispatch s' @ [NEO_update]"
    by (elim loop_bodyE)
  have len: "length (buffer s5 b) = 8" for b
    using assms(2) sample_buffer [OF s5, of b] by (simp add: wf_state_buffer)
  have "buffer s' b ! 0 = ucast (touchCount s')" for b
    using len [of b] by (simp add: s')
  moreover have "hid_reports e5 = []"
    using sample_silent [OF s5, of Key1] by simp
  ultimately show ?thesis
    using s5 s' es by auto
qed

theorem contactCount_patched_before_dispatch_witness:
  "\<exists>s' es. loop_body hold12 init_state = Some (s', es) \<and> wf_state init_state \<and>
     touchCount s' = 2 \<and>
     touchDownReport1 s' ! 0 = 2 \<and> touchUpReport1 s' ! 0 = 2 \<and>
     touchDownReport2 s' ! 0 = 2 \<and> touchUpReport2 s' ! 0 = 2 \<and>
     touchDownReport3 s' ! 0 = 2 \<and> touchUpReport3 s' ! 0 = 2"
proof -
  obtain s' es where step: "loop_body hold12 init_state = Some (s', es)"
    and count: "touchCount s' = 2"
    by (simp add: cycle_defs input_defs init_state_def)
  from contactCount_patched_before_dispatch [OF step wf_init_state]
  have bytes: "buffer s' b ! 0 = ucast (touchCount s')" for b by blast
  show ?thesis
    using step wf_init_state count bytes [of TouchDownReport1] bytes [of TouchUpReport1]
      bytes [of TouchDownReport2] bytes [of TouchUpReport2]
      bytes [of TouchDownReport3] bytes [of TouchUpReport3]
    by simp
qed

subsection \<open>Bytes 1 to 7 of the reports\<close>

text \<open>
  C10. Over any sequence of cycles, every one of the six report arrays keeps its length and
  its bytes 1 to 7 (contact identifier, flags, pressure and coordinates): the loop body
  writes byte 0 only.
\<close>

theorem report_bytes_1_to_7_never_written:
  assumes "run ps s = Some r" and "(s', es) \<in> set r"
  shows "length (buffer s' b) = length (buffer s b) \<and>
    (\<forall>i. 1 \<le> i \<longrightarrow> buffer s' b ! i = buffer s b ! i)"
  using assms
proof (induction ps arbitrary: s r)
  case Nil
  then show ?case by simp
next
  case (Cons p ps)
  from Cons.prems(1) obtain s1 e1 r1 where step: "loop_body p s = Some (s1, e1)"
    and rest: "run ps s1 = Some r1" and r: "r = (s1, e1) # r1"
    by (auto split: option.splits)
  note c = loop_body_buffer [OF step, of b]
  have first: "length (buffer s1 b) = length (buffer s b) \<and>
      (\<forall>i. 1 \<le> i \<longrightarrow> buffer s1 b ! i = buffer s b ! i)"
    by (simp add: c)
  from Cons.prems(2) r consider "(s', es) = (s1, e1)" | "(s', es) \<in> set r1" by auto
  then show ?case
  proof cases
    case 1
    with first show ?thesis by simp
  next
    case 2
    from Cons.IH [OF rest 2] first show ?thesis by simp
  qed
qed

theorem report_bytes_1_to_7_never_written_witness:
  "\<exists>r s' es. run [hold1, hold123, idle] init_state = Some r \<and> (s', es) \<in> set r \<and>
     touchCount s' = 2 \<and> length (touchDownReport3 s') = 8 \<and>
     map ((!) (touchDownReport3 s')) [1, 2, 3, 4, 5, 6, 7] = [0x03, 0x03, 0x7F, 0xf3, 0x20, 0x39, 0x24]"
proof -
  obtain r a s' es z where r: "run [hold1, hold123, idle] init_state = Some r"
    and r3: "r = [a, (s', es), z]" and count: "touchCount s' = 2"
    by (simp add: cycle_defs input_defs init_state_def)
  then have mem: "(s', es) \<in> set r" by simp
  from report_bytes_1_to_7_never_written [OF r mem, of TouchDownReport3]
  have len: "length (touchDownReport3 s') = 8"
    and same: "\<forall>i. 1 \<le> i \<longrightarrow> touchDownReport3 s' ! i = touchDownReport3 init_state ! i"
    by (simp_all add: init_state_def)
  have bytes: "map ((!) (touchDownReport3 s')) [1, 2, 3, 4, 5, 6, 7]
      = [0x03, 0x03, 0x7F, 0xf3, 0x20, 0x39, 0x24]"
    by (simp add: same init_state_def)
  show ?thesis
    by (intro exI conjI) (fact r mem count len bytes)+
qed

subsection \<open>Unchanged input\<close>

lemma unchanged_input_step:
  assumes "unchanged_input p s"
  shows "\<exists>s' es. loop_body p s = Some (s', es) \<and> keyDirty s' = 0 \<and>
    hid_reports es = [] \<and> led_writes es = [] \<and> (\<forall>q. unchanged_input q s' = unchanged_input q s)"
proof -
  from assms have a: "enc_a p" by (simp add: unchanged_input_def)
  then obtain s5 e5 where s5: "sample p s = Some (s5, e5)" by (simp add: sample_rest)
  define s' where "s' = patch_reports s5"
  define es where "es = e5 @ dispatch s' @ [NEO_update]"
  have step: "loop_body p s = Some (s', es)"
    using s5 by (simp add: loop_body_Some_iff s'_def es_def)
  have dirty: "keyDirty s' = 0"
    using loop_body_dirty [OF step] assms by (simp add: unchanged_input_def)
  have same: "pressed k s' = pressed k s" for k
    using loop_body_pressed [OF step, of k] assms by (cases k) (simp_all add: unchanged_input_def)
  have "hid_reports es = []" "led_writes es = []"
    using loop_body_hid [OF step] loop_body_led [OF step] dirty by (simp_all add: dispatch_def)
  moreover have "unchanged_input q s' = unchanged_input q s" for q
    by (simp only: unchanged_input_def same)
  ultimately show ?thesis
    using step dirty by blast
qed

text \<open>
  C5. When in every cycle of a sequence each sampled level equals the tracked state and
  phase A of the encoder rests, every cycle returns, ends with \<open>keyDirty = 0\<close>, sends
  no report and makes no per-slot LED write; so it is for any number of such cycles, in
  particular with all keys released and the encoder untouched.
\<close>

theorem unchanged_input_is_silent:
  assumes "list_all (\<lambda>p. unchanged_input p s) ps"
  shows "\<exists>r. run ps s = Some r \<and> length r = length ps \<and>
    list_all (\<lambda>(s', es). keyDirty s' = 0 \<and> hid_reports es = [] \<and> led_writes es = []) r"
  using assms
proof (induction ps arbitrary: s)
  case Nil
  then show ?case by simp
next
  case (Cons p ps)
  from Cons.prems have "unchanged_input p s" by simp
  from unchanged_input_step [OF this] obtain s' es where step: "loop_body p s = Some (s', es)"
    and quiet: "keyDirty s' = 0" "hid_reports es = []" "led_writes es = []"
    and same: "\<And>q. unchanged_input q s' = unchanged_input q s"
    by blast
  from Cons.prems have "list_all (\<lambda>p. unchanged_input p s') ps"
    by (simp add: same)
  from Cons.IH [OF this] obtain r where "run ps s' = Some r" "length r = length ps"
    "list_all (\<lambda>(s', es). keyDirty s' = 0 \<and> hid_reports es = [] \<and> led_writes es = []) r"
    by blast
  with step quiet show ?case by simp
qed

theorem unchanged_input_is_silent_witness:
  "list_all (\<lambda>p. unchanged_input p init_state) [idle, idle, idle] \<and>
   (\<exists>r. run [idle, idle, idle] init_state = Some r \<and> length r = length [idle, idle, idle] \<and>
      list_all (\<lambda>(s', es). keyDirty s' = 0 \<and> hid_reports es = [] \<and> led_writes es = []) r)"
proof -
  have h: "list_all (\<lambda>p. unchanged_input p init_state) [idle, idle, idle]"
    by (simp add: unchanged_input_def idle_def init_state_def)
  from unchanged_input_is_silent [OF h] h show ?thesis by blast
qed

subsection \<open>LED colours\<close>

text \<open>
  C6. In every dirty cycle all three LED slots are written, in the order of the keys and
  whichever input made the cycle dirty: the active colour for a pressed key, the ambient
  colour for a released key with the lamp on, the slot cleared for a released key with the
  lamp off. A cycle that changes \<open>lampLight\<close> is dirty, so the released keys get their
  new colour in that same cycle.
\<close>

theorem led_slots_recomputed_when_dirty:
  assumes "loop_body p s = Some (s', es)"
  shows "led_writes es =
      (if keyDirty s' \<noteq> 0
       then [spec_feedback_color Key1 (pressed Key1 s') (lampLight s' \<noteq> 0),
             spec_feedback_color Key2 (pressed Key2 s') (lampLight s' \<noteq> 0),
             spec_feedback_color Key3 (pressed Key3 s') (lampLight s' \<noteq> 0)]
       else []) \<and>
    (lampLight s' \<noteq> lampLight s \<longrightarrow> keyDirty s' \<noteq> 0)"
proof -
  have "led_writes es = led_writes (dispatch s')"
    by (rule loop_body_led [OF assms])
  moreover have "lampLight s' \<noteq> lampLight s \<longrightarrow> keyDirty s' \<noteq> 0"
    using loop_body_lamp [OF assms] loop_body_dirty [OF assms] by (cases "enc_a p") simp_all
  ultimately show ?thesis
    by (simp only: dispatch_led)
qed

theorem led_slots_recomputed_when_dirty_witness:
  "\<exists>s' es. loop_body (turn True) init_state = Some (s', es) \<and>
     lampLight s' \<noteq> lampLight init_state \<and> keyDirty s' \<noteq> 0 \<and>
     led_writes es = [NEO_writeColor 0 15 5 0, NEO_writeColor 1 15 5 0, NEO_writeColor 2 15 5 0]"
proof -
  obtain s' es where step: "loop_body (turn True) init_state = Some (s', es)"
    and lamp: "lampLight s' = 1" and keys: "\<not> pressed Key1 s'" "\<not> pressed Key2 s'" "\<not> pressed Key3 s'"
    by (simp add: cycle_defs input_defs init_state_def wait_detent.simps)
  have flip: "lampLight s' \<noteq> lampLight init_state"
    using lamp by (simp add: init_state_def)
  from led_slots_recomputed_when_dirty [OF step] flip
  have dirty: "keyDirty s' \<noteq> 0"
    and leds: "led_writes es =
       [spec_feedback_color Key1 (pressed Key1 s') (lampLight s' \<noteq> 0),
        spec_feedback_color Key2 (pressed Key2 s') (lampLight s' \<noteq> 0),
        spec_feedback_color Key3 (pressed Key3 s') (lampLight s' \<noteq> 0)]"
    by simp_all
  have "led_writes es = [NEO_writeColor 0 15 5 0, NEO_writeColor 1 15 5 0, NEO_writeColor 2 15 5 0]"
    using keys lamp by (simp add: leds spec_feedback_color_def)
  with step flip dirty show ?thesis by blast
qed

subsection \<open>The encoder\<close>

text \<open>
  C7. In a cycle that reads phase A low, phase B is read exactly once, \<open>lampLight\<close> becomes
  1 when B was read high and 0 when it was read low, the 10 ms delay follows, phase A is
  read again until it is high, and only then the cycle goes on, marked dirty. The cycle
  returns exactly when phase A is read high at some point of the wait. In a cycle that
  reads phase A high, phase B is not read and \<open>lampLight\<close> keeps its value.
\<close>

theorem encoder_detent_handled_in_cycle:
  "(\<not> enc_a p \<longrightarrow>
      (loop_body p s = None) = (\<forall>i. \<not> enc_a_poll p i) \<and>
      (\<forall>s' es. loop_body p s = Some (s', es) \<longrightarrow>
         reads_of PIN_ENC_B es = [enc_b p] \<and>
         lampLight s' = (if enc_b p then 1 else 0) \<and>
         keyDirty s' = 1 \<and>
         (\<exists>n. enc_a_poll p n \<and> (\<forall>i<n. \<not> enc_a_poll p i) \<and>
            es = snd (check_keys p s)
                 @ [PIN_read PIN_ENC_A False, PIN_read PIN_ENC_B (enc_b p), DLY_ms 10]
                 @ replicate n (PIN_read PIN_ENC_A False) @ [PIN_read PIN_ENC_A True]
                 @ dispatch s' @ [NEO_update]))) \<and>
   (enc_a p \<longrightarrow>
      (\<exists>s' es. loop_body p s = Some (s', es) \<and> lampLight s' = lampLight s \<and>
         reads_of PIN_ENC_B es = []))"
proof (intro conjI impI allI)
  assume a: "\<not> enc_a p"
  show "(loop_body p s = None) = (\<forall>i. \<not> enc_a_poll p i)"
    by (simp add: loop_body_None_iff sample_blocked [OF a])
next
  fix s' es
  assume a: "\<not> enc_a p" and step: "loop_body p s = Some (s', es)"
  from step obtain s5 e5 where s5: "sample p s = Some (s5, e5)" and s': "s' = patch_reports s5"
    and es: "es = e5 @ dispatch s' @ [NEO_update]"
    by (elim loop_bodyE)
  show "reads_of PIN_ENC_B es = [enc_b p]"
    using sample_reads_B [OF s5] a by (simp add: es obs_append dispatch_reads)
  show "lampLight s' = (if enc_b p then 1 else 0)"
    using loop_body_lamp [OF step] a by simp
  show "keyDirty s' = 1"
    using loop_body_dirty [OF step] a by simp
  from sample_turn [OF a s5] obtain n where "enc_a_poll p n" "\<forall>i<n. \<not> enc_a_poll p i"
    "e5 = snd (check_keys p s)
          @ [PIN_read PIN_ENC_A False, PIN_read PIN_ENC_B (enc_b p), DLY_ms 10]
          @ replicate n (PIN_read PIN_ENC_A False) @ [PIN_read PIN_ENC_A True]"
    by blast
  then show "\<exists>n. enc_a_poll p n \<and> (\<forall>i<n. \<not> enc_a_poll p i) \<and>
            es = snd (check_keys p s)
                 @ [PIN_read PIN_ENC_A False, PIN_read PIN_ENC_B (enc_b p), DLY_ms 10]
                 @ replicate n (PIN_read PIN_ENC_A False) @ [PIN_read PIN_ENC_A True]
                 @ dispatch s' @ [NEO_update]"
    by (intro exI [of _ n]) (simp add: es)
next
  assume a: "enc_a p"
  then obtain s5 e5 where s5: "sample p s = Some (s5, e5)" by (simp add: sample_rest)
  define s' where "s' = patch_reports s5"
  define es where "es = e5 @ dispatch s' @ [NEO_update]"
  have step: "loop_body p s = Some (s', es)"
    using s5 by (simp add: loop_body_Some_iff s'_def es_def)
  have "lampLight s' = lampLight s"
    using loop_body_lamp [OF step] a by simp
  moreover have "reads_of PIN_ENC_B es = []"
    using sample_reads_B [OF s5] a by (simp add: es_def obs_append dispatch_reads)
  ultimately show "\<exists>s' es. loop_body p s = Some (s', es) \<and> lampLight s' = lampLight s \<and>
         reads_of PIN_ENC_B es = []"
    using step by blast
qed

theorem encoder_detent_handled_in_cycle_witness:
  "\<not> enc_a (turn False) \<and> enc_a hold1 \<and>
   (\<exists>s' es. loop_body (turn False) (init_state\<lparr>lampLight := 1\<rparr>) = Some (s', es) \<and>
      reads_of PIN_ENC_B es = [False] \<and> lampLight s' = 0 \<and> keyDirty s' = 1) \<and>
   (\<exists>s' es. loop_body hold1 (init_state\<lparr>lampLight := 1\<rparr>) = Some (s', es) \<and>
      lampLight s' = 1 \<and> reads_of PIN_ENC_B es = [])"
proof -
  have a: "\<not> enc_a (turn False)" and b: "\<not> enc_b (turn False)" and r: "enc_a hold1"
    by (simp_all add: input_defs)
  have "\<not> (\<forall>i. \<not> enc_a_poll (turn False) i)"
    by (auto simp: input_defs intro: exI [of _ 2])
  with encoder_detent_handled_in_cycle [of "turn False" "init_state\<lparr>lampLight := 1\<rparr>"] a
  obtain s' es where step: "loop_body (turn False) (init_state\<lparr>lampLight := 1\<rparr>) = Some (s', es)"
    by (cases "loop_body (turn False) (init_state\<lparr>lampLight := 1\<rparr>)") auto
  with encoder_detent_handled_in_cycle [of "turn False" "init_state\<lparr>lampLight := 1\<rparr>"] a b
  have t: "reads_of PIN_ENC_B es = [False] \<and> lampLight s' = 0 \<and> keyDirty s' = 1"
    by simp
  from encoder_detent_handled_in_cycle [of hold1 "init_state\<lparr>lampLight := 1\<rparr>"] r
  have "\<exists>s' es. loop_body hold1 (init_state\<lparr>lampLight := 1\<rparr>) = Some (s', es) \<and>
      lampLight s' = 1 \<and> reads_of PIN_ENC_B es = []"
    by simp
  with a r step t show ?thesis by blast
qed

subsection \<open>Key 3 and the encoder switch\<close>

lemma check_keys_state_cong:
  fixes p q :: pins
  assumes "sampled Key1 q = sampled Key1 p" "sampled Key2 q = sampled Key2 p"
    "sampled Key3 q = sampled Key3 p"
  shows "fst (check_keys q s) = fst (check_keys p s)"
proof -
  have 1: "fst (check_key1 q t) = fst (check_key1 p t)" for t
    using assms(1) by (simp add: check_key1_def)
  have 2: "fst (check_key2 q t) = fst (check_key2 p t)" for t
    using assms(2) by (simp add: check_key2_def)
  have 3: "fst (check_key3 q t) = fst (check_key3 p t)" for t
    using assms(3) by (simp add: check_key3_def)
  show ?thesis
    by (simp add: check_keys_def Let_def split_beta 1 2 3)
qed

lemma check_keys_outputs: "outputs (snd (check_keys p s)) = [PIN_toggle PIN_LED, DLY_ms 10]"
  by (simp add: check_keys_events)

lemma check_encoder_cong:
  fixes p q :: pins
  shows "enc_a q = enc_a p \<Longrightarrow> enc_b q = enc_b p \<Longrightarrow> enc_a_poll q = enc_a_poll p \<Longrightarrow>
   check_encoder q s = check_encoder p s"
  by (simp add: check_encoder_def cong: option.case_cong if_cong)

text \<open>
  C8. Key 3 is sampled as pressed exactly when its own pin or the pin of the encoder switch
  is low: the tracked state of key 3 after a cycle is this disjunction, an edge against it
  marks the cycle dirty, and two inputs that agree on the disjunction and on the other
  pins give the same variables and the same calls other than pin reads, whichever of the
  two pins is low.
\<close>

theorem key3_is_key_pin_or_encoder_switch:
  assumes "loop_body p s = Some (s', es)"
  shows "pressed Key3 s' = (\<not> key3 p \<or> \<not> enc_sw p) \<and>
    (pressed Key3 s \<noteq> (\<not> key3 p \<or> \<not> enc_sw p) \<longrightarrow> keyDirty s' = 1) \<and>
    (\<forall>q. key1 q = key1 p \<and> key2 q = key2 p \<and> enc_a q = enc_a p \<and> enc_b q = enc_b p \<and>
         enc_a_poll q = enc_a_poll p \<and>
         (\<not> key3 q \<or> \<not> enc_sw q) = (\<not> key3 p \<or> \<not> enc_sw p) \<longrightarrow>
         (\<exists>es'. loop_body q s = Some (s', es') \<and> outputs es' = outputs es))"
proof (intro conjI allI impI)
  show "pressed Key3 s' = (\<not> key3 p \<or> \<not> enc_sw p)"
    using loop_body_pressed [OF assms, of Key3] by simp
  show "keyDirty s' = 1" if "pressed Key3 s \<noteq> (\<not> key3 p \<or> \<not> enc_sw p)"
    using loop_body_dirty [OF assms] that by simp
next
  fix q :: pins
  assume q: "key1 q = key1 p \<and> key2 q = key2 p \<and> enc_a q = enc_a p \<and> enc_b q = enc_b p \<and>
         enc_a_poll q = enc_a_poll p \<and>
         (\<not> key3 q \<or> \<not> enc_sw q) = (\<not> key3 p \<or> \<not> enc_sw p)"
  from assms obtain s5 e5 where s5: "sample p s = Some (s5, e5)" and s': "s' = patch_reports s5"
    and es: "es = e5 @ dispatch s' @ [NEO_update]"
    by (elim loop_bodyE)
  from s5 obtain e where e: "check_encoder p (fst (check_keys p s)) = Some (s5, e)"
    and e5: "e5 = snd (check_keys p s) @ e"
    by (auto simp: sample_def split_beta split: option.splits)
  have st: "fst (check_keys q s) = fst (check_keys p s)"
    by (rule check_keys_state_cong) (use q in simp_all)
  have "check_encoder q (fst (check_keys q s)) = Some (s5, e)"
    using q e by (simp add: st check_encoder_cong [of q p])
  then have "sample q s = Some (s5, snd (check_keys q s) @ e)"
    by (simp add: sample_def split_beta)
  then have "loop_body q s = Some (s', (snd (check_keys q s) @ e) @ dispatch s' @ [NEO_update])"
    by (simp add: loop_body_Some_iff s')
  moreover have "outputs ((snd (check_keys q s) @ e) @ dispatch s' @ [NEO_update]) = outputs es"
    by (simp add: es e5 obs_append check_keys_outputs)
  ultimately show "\<exists>es'. loop_body q s = Some (s', es') \<and> outputs es' = outputs es"
    by blast
qed

theorem key3_is_key_pin_or_encoder_switch_witness:
  "\<exists>s' es es'. loop_body (idle\<lparr>key3 := False\<rparr>) init_state = Some (s', es) \<and>
     pressed Key3 s' \<and> keyDirty s' = 1 \<and>
     loop_body (idle\<lparr>enc_sw := False\<rparr>) init_state = Some (s', es') \<and>
     outputs es' = outputs es \<and>
     reports_for Key3 es = [Down] \<and> reports_for Key3 es' = [Down]"
proof -
  obtain s' es where step: "loop_body (idle\<lparr>key3 := False\<rparr>) init_state = Some (s', es)"
    and rep: "reports_for Key3 es = [Down]"
    by (simp add: cycle_defs input_defs init_state_def)
  note t = key3_is_key_pin_or_encoder_switch [OF step]
  from t have p3: "pressed Key3 s'" by (simp add: idle_def)
  from t have d: "keyDirty s' = 1" by (simp add: idle_def init_state_def)
  from t [THEN conjunct2, THEN conjunct2, rule_format, of "idle\<lparr>enc_sw := False\<rparr>"]
  obtain es' where step': "loop_body (idle\<lparr>enc_sw := False\<rparr>) init_state = Some (s', es')"
    and out: "outputs es' = outputs es"
    by (auto simp: idle_def)
  have rep': "reports_for Key3 es' = [Down]"
    using step' by (simp add: cycle_defs input_defs init_state_def) auto
  show ?thesis
    by (intro exI conjI) (fact step p3 d step' out rep rep')+
qed

subsection \<open>Three keys pressed in one cycle\<close>

lemma take_8_update_0: "length xs = 8 \<Longrightarrow> take 8 (xs[0 := c]) = c # tl xs"
  by (cases xs) simp_all

text \<open>
  C9. When all three keys go from released to pressed in one cycle, that cycle sends exactly
  three reports: the down arrays of key 1, key 2 and key 3, in this order, each with 3 in
  byte 0 and its other bytes as they were.
\<close>

theorem three_keys_pressed_in_one_cycle:
  assumes "\<not> pressed Key1 s" "\<not> pressed Key2 s" "\<not> pressed Key3 s"
    and "sampled Key1 p" "sampled Key2 p" "sampled Key3 p"
    and "wf_state s"
    and "loop_body p s = Some (s', es)"
  shows "touchCount s' = 3 \<and>
    hid_reports es =
      [(TouchDownReport1, 3 # tl (touchDownReport1 s)),
       (TouchDownReport2, 3 # tl (touchDownReport2 s)),
       (TouchDownReport3, 3 # tl (touchDownReport3 s))]"
proof -
  note step = assms(8)
  have count: "touchCount s' = 3"
    using loop_body_count [OF step] assms(1-6) by simp
  have dirty: "keyDirty s' \<noteq> 0"
    using loop_body_dirty [OF step] assms(1-6) by simp
  have now: "pressed Key1 s'" "pressed Key2 s'" "pressed Key3 s'"
    using assms(4-6) by (simp_all only: loop_body_pressed [OF step])
  have len: "length (buffer s b) = 8" for b
    using assms(7) by (simp add: wf_state_buffer)
  have buf: "take 8 (buffer s' b) = 3 # tl (buffer s b)" for b
    by (simp add: loop_body_buffer [OF step] count take_8_update_0 [OF len])
  have "hid_reports es = hid_reports (dispatch s')"
    by (rule loop_body_hid [OF step])
  also have "\<dots> = [(TouchDownReport1, take 8 (buffer s' TouchDownReport1)),
       (TouchDownReport2, take 8 (buffer s' TouchDownReport2)),
       (TouchDownReport3, take 8 (buffer s' TouchDownReport3))]"
    using dirty now by (simp only: dispatch_hid variant_of_def) simp
  finally show ?thesis
    using count by (simp only: buf) simp
qed

theorem three_keys_pressed_in_one_cycle_witness:
  "\<exists>s' es. loop_body hold123 init_state = Some (s', es) \<and> wf_state init_state \<and>
     sampled Key1 hold123 \<and> sampled Key2 hold123 \<and> sampled Key3 hold123 \<and>
     \<not> pressed Key1 init_state \<and> \<not> pressed Key2 init_state \<and> \<not> pressed Key3 init_state \<and>
     touchCount s' = 3 \<and>
     hid_reports es =
       [(TouchDownReport1, [3, 0x01, 0x03, 0x7F, 0xfa, 0x03, 0xf4, 0x01]),
        (TouchDownReport2, [3, 0x02, 0x03, 0x7F, 0x88, 0x13, 0x88, 0x13]),
        (TouchDownReport3, [3, 0x03, 0x03, 0x7F, 0xf3, 0x20, 0x39, 0x24])]"
proof -
  obtain s' es where step: "loop_body hold123 init_state = Some (s', es)"
    by (simp add: cycle_defs input_defs init_state_def)
  have rel: "\<not> pressed Key1 init_state" "\<not> pressed Key2 init_state" "\<not> pressed Key3 init_state"
    by (simp_all add: init_state_def)
  have smp: "sampled Key1 hold123" "sampled Key2 hold123" "sampled Key3 hold123"
    by (simp_all add: input_defs)
  from three_keys_pressed_in_one_cycle [OF rel smp wf_init_state step]
  have count: "touchCount s' = 3" and reps: "hid_reports es =
       [(TouchDownReport1, [3, 0x01, 0x03, 0x7F, 0xfa, 0x03, 0xf4, 0x01]),
        (TouchDownReport2, [3, 0x02, 0x03, 0x7F, 0x88, 0x13, 0x88, 0x13]),
        (TouchDownReport3, [3, 0x03, 0x03, 0x7F, 0xf3, 0x20, 0x39, 0x24])]"
    by (simp_all add: init_state_def)
  show ?thesis
    by (intro exI conjI) (fact step wf_init_state smp rel count reps)+
qed

subsection \<open>The value of \<open>touchCount\<close>\<close>

text \<open>
  C1 says that \<open>touchCount\<close>, and byte 0 of every report sent, is the number of keys
  pressed at that time, keys held from earlier cycles included. The code counts only the
  keys that became pressed in the cycle: with key 1 held from the cycle before and key 2
  going down, two keys are pressed, \<open>touchCount\<close> is 1 and the three reports sent carry 1.
\<close>

theorem touchCount_leaves_out_held_key:
  "\<exists>s1 es1 s2 es2.
     run [hold1, hold12] init_state = Some [(s1, es1), (s2, es2)] \<and>
     pressed Key1 s2 \<and> pressed Key2 s2 \<and> \<not> pressed Key3 s2 \<and>
     touchCount s2 = 1 \<and>
     hid_reports es2 =
       [(TouchDownReport1, [1, 0x01, 0x03, 0x7F, 0xfa, 0x03, 0xf4, 0x01]),
        (TouchDownReport2, [1, 0x02, 0x03, 0x7F, 0x88, 0x13, 0x88, 0x13]),
        (TouchUpReport3, [1, 0x03, 0x00, 0x00, 0x00, 0x00, 0x00, 0x00])]"
  by (simp add: cycle_defs input_defs init_state_def)

subsection \<open>Which reports a cycle sends\<close>

text \<open>
  C2 says that a cycle sends a report for a key exactly when the tracked state of that key
  changed in the cycle, as the comment at line 138 has it (only send updates if the key
  state has changed). The code sends a report for each of the three keys in every dirty
  cycle: in the first cycle that presses key 1 alone, key 2 does not change and an up
  report is sent for it; in a cycle in which only the encoder is turned, no key changes
  and an up report is sent for key 2 all the same.
\<close>

theorem unchanged_key_gets_report:
  "key_changed Key2 hold1 init_state = Some False \<and>
   cycle_reports_for Key2 hold1 init_state = Some [Up] \<and>
   key_changed Key1 (turn True) init_state = Some False \<and>
   key_changed Key2 (turn True) init_state = Some False \<and>
   key_changed Key3 (turn True) init_state = Some False \<and>
   cycle_reports_for Key2 (turn True) init_state = Some [Up]"
  by (simp add: key_changed_def cycle_reports_for_def cycle_defs input_defs init_state_def
      wait_detent.simps)

subsection \<open>Down and up reports over time\<close>

text \<open>
  C3 says that the reports sent for a key alternate strictly between down and up. The code
  does not keep to this: key 1 pressed and then released makes two dirty cycles, and
  key 2, released all along, gets an up report in each of them, two ups in a row with no
  down before or between them.
\<close>

theorem released_key_gets_up_twice:
  "run_reports_for Key2 [hold1, idle] init_state = Some [Up, Up]"
  by (simp add: run_reports_for_def cycle_defs input_defs init_state_def)

end
